theory Spec2Isabelle
  imports Main "HOL-Library.Multiset" "HOL-Library.Sublist"
begin

section \<open>Data model\<close>

text \<open>
  A JavaScript value as far as the \<open>time\<close> field and the date formatters see one:
  \<open>null\<close>, \<open>undefined\<close> or a string.
\<close>

datatype jsval = JNull | JUndefined | JStr string

text \<open>
  Modelled from the spec: the declaration of \<open>Event\<close> (\<open>@/types/event\<close>) is not among the
  sources. The fields are those of the spec's data model and of the fixtures in the test files:
  \<open>name\<close> is the identity key, \<open>time\<close> is typed as a string but "may be malformed, null, or
  absent" (the tests pass \<open>null as any\<close> and \<open>undefined as any\<close>), \<open>category\<close> is optional.
  The field \<open>image\<close> is called \<open>image_url\<close> here, since \<open>image\<close> is a constant of HOL.
\<close>

record event =
  name :: string
  time :: jsval
  location :: string
  description :: string
  image_url :: string
  category :: "string option"

section \<open>Array methods used by the stores\<close>

text \<open>\<open>Array.prototype.some\<close>: true at the first element satisfying the predicate.\<close>

primrec some :: "('a \<Rightarrow> bool) \<Rightarrow> 'a list \<Rightarrow> bool" where
  "some p [] = False"
| "some p (x # xs) = (if p x then True else some p xs)"

text \<open>
  \<open>Array.prototype.findIndex\<close>: the index of the first element satisfying the predicate,
  \<open>-1\<close> when there is none. The loop counter is the second argument.
\<close>

primrec findIndex_from :: "('a \<Rightarrow> bool) \<Rightarrow> nat \<Rightarrow> 'a list \<Rightarrow> int" where
  "findIndex_from p k [] = - 1"
| "findIndex_from p k (x # xs) = (if p x then int k else findIndex_from p (Suc k) xs)"

definition findIndex :: "('a \<Rightarrow> bool) \<Rightarrow> 'a list \<Rightarrow> int" where
  "findIndex p xs = findIndex_from p 0 xs"

text \<open>\<open>Array.prototype.push\<close> appends in place; the model returns the extended list.\<close>

definition push :: "'a list \<Rightarrow> 'a \<Rightarrow> 'a list" where
  "push xs x = xs @ [x]"

section \<open>The pinned-events store (\<open>stores/pinnedEvents.ts\<close>)\<close>

record pinnedEventsStore =
  pinnedEvents :: "event list"

definition initialPinned :: pinnedEventsStore where
  "initialPinned = \<lparr>pinnedEvents = []\<rparr>"

definition addPinnedEvent :: "event \<Rightarrow> pinnedEventsStore \<Rightarrow> pinnedEventsStore" where
  "addPinnedEvent ev this =
     (let alreadyPinned = some (\<lambda>e. name e = name ev) (pinnedEvents this)
      in if \<not> alreadyPinned then this\<lparr>pinnedEvents := push (pinnedEvents this) ev\<rparr>
         else this)"

definition removePinnedEvent :: "string \<Rightarrow> pinnedEventsStore \<Rightarrow> pinnedEventsStore" where
  "removePinnedEvent eventName this =
     this\<lparr>pinnedEvents := filter (\<lambda>e. name e \<noteq> eventName) (pinnedEvents this)\<rparr>"

definition togglePin :: "event \<Rightarrow> pinnedEventsStore \<Rightarrow> pinnedEventsStore" where
  "togglePin ev this =
     (let index = findIndex (\<lambda>e. name e = name ev) (pinnedEvents this)
      in if index > - 1 then removePinnedEvent (name ev) this
         else addPinnedEvent ev this)"

definition isPinned :: "string \<Rightarrow> pinnedEventsStore \<Rightarrow> bool" where
  "isPinned eventName this = some (\<lambda>e. name e = eventName) (pinnedEvents this)"

text \<open>The three mutating actions as commands, and a run of commands from left to right.\<close>

datatype pin_action = Add event | Remove string | Toggle event

fun perform :: "pin_action \<Rightarrow> pinnedEventsStore \<Rightarrow> pinnedEventsStore" where
  "perform (Add ev) this = addPinnedEvent ev this"
| "perform (Remove n) this = removePinnedEvent n this"
| "perform (Toggle ev) this = togglePin ev this"

definition uniqueNames :: "pinnedEventsStore \<Rightarrow> bool" where
  "uniqueNames this = distinct (map name (pinnedEvents this))"

text \<open>Fixtures of the test files, used as concrete inputs.\<close>

definition mockEvent1 :: event where
  "mockEvent1 = \<lparr>name = ''Early Event'', time = JStr ''2025-01-15T10:00:00'',
     location = ''Location A'', description = ''First event'',
     image_url = ''https://example.com/event1.jpg'', category = Some ''workshop''\<rparr>"

definition mockEvent2 :: event where
  "mockEvent2 = \<lparr>name = ''Middle Event'', time = JStr ''2025-03-20T14:00:00'',
     location = ''Location B'', description = ''Second event'',
     image_url = ''https://example.com/event2.jpg'', category = Some ''conference''\<rparr>"

definition mockEvent3 :: event where
  "mockEvent3 = \<lparr>name = ''Late Event'', time = JStr ''2025-06-30T18:00:00'',
     location = ''Location C'', description = ''Third event'',
     image_url = ''https://example.com/event3.jpg'', category = Some ''meetup''\<rparr>"

definition pinnedTwo :: pinnedEventsStore where
  "pinnedTwo = \<lparr>pinnedEvents = [mockEvent1, mockEvent2]\<rparr>"

text \<open>The first fixture with another payload under the same name.\<close>

definition movedEvent1 :: event where
  "movedEvent1 = mockEvent1\<lparr>location := ''Location Z'', description := ''Moved''\<rparr>"

section \<open>The JavaScript date API, as far as the code uses it\<close>

text \<open>
  A time value is a number of milliseconds since the epoch, or \<open>NaN\<close> (an invalid date);
  \<open>NaN\<close> is \<open>None\<close>. What the engine computes from a time value or a string (parsing, the
  calendar fields in local time, the en-US texts) is a parameter of the model: a record of
  functions. What the language fixes for every engine is written out below: which constructor
  arguments give an invalid date, and what each method does with one.
  \<^item> \<open>Date_parse\<close>: \<open>Date.parse\<close>, the time value of a string or \<open>NaN\<close>;
  \<^item> \<open>DateTimeFormat_en_US\<close>: the text of \<open>Intl.DateTimeFormat('en-US', options)\<close> for a
    time value, with the options that \<open>formatDate\<close> passes;
  \<^item> \<open>month_short_en_US\<close>: the text of \<open>toLocaleString('en-US', {month: 'short'})\<close> for a
    time value;
  \<^item> \<open>local_day_of_month\<close>: the day of the month of a time value in local time.
\<close>

record engine =
  Date_parse :: "string \<Rightarrow> int option"
  DateTimeFormat_en_US :: "int \<Rightarrow> string"
  month_short_en_US :: "int \<Rightarrow> string"
  local_day_of_month :: "int \<Rightarrow> int"

datatype js_error = RangeError

text \<open>
  \<open>new Date(v)\<close> for one argument: a string is parsed; any other value is converted to a
  number, so \<open>null\<close> is the epoch and \<open>undefined\<close> is \<open>NaN\<close>.
\<close>

definition newDate :: "engine \<Rightarrow> jsval \<Rightarrow> int option" where
  "newDate E v = (case v of JStr s \<Rightarrow> Date_parse E s | JNull \<Rightarrow> Some 0 | JUndefined \<Rightarrow> None)"

definition getTime :: "int option \<Rightarrow> int option" where
  "getTime date = date"

text \<open>\<open>Intl.DateTimeFormat.prototype.format\<close> throws a RangeError on an invalid date.\<close>

definition DateTimeFormat_format :: "engine \<Rightarrow> int option \<Rightarrow> js_error + string" where
  "DateTimeFormat_format E date =
     (case date of None \<Rightarrow> Inl RangeError | Some t \<Rightarrow> Inr (DateTimeFormat_en_US E t))"

text \<open>\<open>Date.prototype.toLocaleString\<close> returns the text \<open>Invalid Date\<close> on an invalid date.\<close>

definition toLocaleString_month :: "engine \<Rightarrow> int option \<Rightarrow> string" where
  "toLocaleString_month E date =
     (case date of None \<Rightarrow> ''Invalid Date'' | Some t \<Rightarrow> month_short_en_US E t)"

text \<open>\<open>Date.prototype.getDate\<close> returns \<open>NaN\<close> on an invalid date.\<close>

definition getDate :: "engine \<Rightarrow> int option \<Rightarrow> int option" where
  "getDate E date = (case date of None \<Rightarrow> None | Some t \<Rightarrow> Some (local_day_of_month E t))"

text \<open>
  Subtraction of numbers: \<open>NaN\<close> when an operand is. Time values are integers that a
  double holds exactly; the difference of two of them may be rounded, but its sign, which
  is all that \<open>sort\<close> reads, is the sign of the exact difference.
\<close>

definition minus_js :: "int option \<Rightarrow> int option \<Rightarrow> int option" where
  "minus_js a b = (case (a, b) of (Some x, Some y) \<Rightarrow> Some (x - y) | _ \<Rightarrow> None)"

definition digitChar :: "nat \<Rightarrow> char" where
  "digitChar d = char_of (48 + d)"

fun decimal :: "nat \<Rightarrow> string" where
  "decimal n = (if n < 10 then [digitChar n] else decimal (n div 10) @ [digitChar (n mod 10)])"

declare decimal.simps [simp del]

text \<open>\<open>Number.prototype.toString\<close> on an integer or \<open>NaN\<close>.\<close>

definition toString :: "int option \<Rightarrow> string" where
  "toString v =
     (case v of None \<Rightarrow> ''NaN''
      | Some k \<Rightarrow> if k < 0 then CHR ''-'' # decimal (nat (- k)) else decimal (nat k))"

text \<open>\<open>String.prototype.toUpperCase\<close> on ASCII text: the letters a to z are raised.\<close>

definition upperChar :: "char \<Rightarrow> char" where
  "upperChar c =
     (let k = of_char c :: nat in if 97 \<le> k \<and> k \<le> 122 then char_of (k - 32) else c)"

definition toUpperCase :: "string \<Rightarrow> string" where
  "toUpperCase s = map upperChar s"

section \<open>The date formatters (\<open>utilities/useTime\<close>)\<close>

definition formatDate :: "engine \<Rightarrow> jsval \<Rightarrow> js_error + string" where
  "formatDate E dateString =
     (let date = newDate E dateString
      in DateTimeFormat_format E date)"

record calendarDate =
  month :: string
  day :: string

definition formatCalendarDate :: "engine \<Rightarrow> jsval \<Rightarrow> calendarDate" where
  "formatCalendarDate E dateString =
     (let date = newDate E dateString;
          month = toUpperCase (toLocaleString_month E date);
          day = toString (getDate E date)
      in \<lparr>month = month, day = day\<rparr>)"

text \<open>What \<open>formatCalendarDate\<close> returns for an invalid date.\<close>

definition invalidCalendarDate :: calendarDate where
  "invalidCalendarDate = \<lparr>month = ''INVALID DATE'', day = ''NaN''\<rparr>"

section \<open>A reference engine\<close>

text \<open>
  An engine to evaluate the formatters on, with UTC as local time and the proleptic
  Gregorian calendar. Its \<open>Date.parse\<close> accepts the date-time string format of the
  language: the dates \<open>YYYY\<close>, \<open>YYYY-MM\<close> and \<open>YYYY-MM-DD\<close> (the year also with a
  sign and six digits), alone or followed by \<open>T\<close> and a time \<open>HH:mm\<close>, \<open>HH:mm:ss\<close> or
  \<open>HH:mm:ss.sss\<close>, and then \<open>Z\<close>, an offset \<open>+HH:mm\<close> or \<open>-HH:mm\<close>, or nothing (local
  time). As in V8, a day up to 31 is accepted in every month and carried into the next
  month, the fraction may have any number of digits, and 24:00:00 is the end of the day.
  Every other string gives \<open>NaN\<close>: engines recognise more formats than the standard one,
  which the standard leaves to them, and this engine recognises none of those.
\<close>

definition digitValue :: "char \<Rightarrow> nat option" where
  "digitValue c =
     (let k = of_char c :: nat in if 48 \<le> k \<and> k \<le> 57 then Some (k - 48) else None)"

fun numberOf :: "nat \<Rightarrow> string \<Rightarrow> nat option" where
  "numberOf acc [] = Some acc"
| "numberOf acc (c # cs) =
     (case digitValue c of None \<Rightarrow> None | Some d \<Rightarrow> numberOf (10 * acc + d) cs)"

text \<open>Days from 1970-01-01 to the given civil date, and back.\<close>

definition daysFromCivil :: "int \<Rightarrow> int \<Rightarrow> int \<Rightarrow> int" where
  "daysFromCivil y m d =
     (let y' = (if m \<le> 2 then y - 1 else y);
          era = y' div 400;
          yoe = y' - era * 400;
          doy = (153 * (if m > 2 then m - 3 else m + 9) + 2) div 5 + d - 1;
          doe = yoe * 365 + yoe div 4 - yoe div 100 + doy
      in era * 146097 + doe - 719468)"

definition civilFromDays :: "int \<Rightarrow> int \<times> int \<times> int" where
  "civilFromDays z0 =
     (let z = z0 + 719468;
          era = z div 146097;
          doe = z - era * 146097;
          yoe = (doe - doe div 1460 + doe div 36524 - doe div 146096) div 365;
          doy = doe - (365 * yoe + yoe div 4 - yoe div 100);
          mp = (5 * doy + 2) div 153;
          d = doy - (153 * mp + 2) div 5 + 1;
          m = (if mp < 10 then mp + 3 else mp - 9);
          y = yoe + era * 400
      in (if m \<le> 2 then y + 1 else y, m, d))"

definition msPerDay :: int where
  "msPerDay = 86400000"

text \<open>
  The parts of a date-time string: a fixed number of digits, the year, the date, the
  fraction of a second in milliseconds, the time, and the offset from UTC in minutes. Each
  returns what it read and the rest of the string.
\<close>

definition digitsPrefix :: "nat \<Rightarrow> string \<Rightarrow> (nat \<times> string) option" where
  "digitsPrefix n s =
     (if length s < n then None
      else case numberOf 0 (take n s) of None \<Rightarrow> None | Some v \<Rightarrow> Some (v, drop n s))"

definition parseYear :: "string \<Rightarrow> (int \<times> string) option" where
  "parseYear s =
     (case s of
        [] \<Rightarrow> None
      | c # r \<Rightarrow>
          if c = CHR ''+'' then
            (case digitsPrefix 6 r of None \<Rightarrow> None | Some (v, r') \<Rightarrow> Some (int v, r'))
          else if c = CHR ''-'' then
            (case digitsPrefix 6 r of
               None \<Rightarrow> None
             | Some (v, r') \<Rightarrow> if v = 0 then None else Some (- int v, r'))
          else (case digitsPrefix 4 s of None \<Rightarrow> None | Some (v, r') \<Rightarrow> Some (int v, r')))"

definition parseDatePart :: "string \<Rightarrow> (int \<times> nat \<times> nat \<times> string) option" where
  "parseDatePart s =
     (case parseYear s of
        None \<Rightarrow> None
      | Some (y, r1) \<Rightarrow>
          if r1 \<noteq> [] \<and> hd r1 = CHR ''-'' then
            (case digitsPrefix 2 (tl r1) of
               None \<Rightarrow> None
             | Some (m, r2) \<Rightarrow>
                 if r2 \<noteq> [] \<and> hd r2 = CHR ''-'' then
                   (case digitsPrefix 2 (tl r2) of
                      None \<Rightarrow> None
                    | Some (d, r3) \<Rightarrow> Some (y, m, d, r3))
                 else Some (y, m, 1, r2))
          else Some (y, 1, 1, r1))"

definition fractionMs :: "string \<Rightarrow> (nat \<times> string) option" where
  "fractionMs s =
     (let ds = takeWhile (\<lambda>c. digitValue c \<noteq> None) s
      in if ds = [] then None
         else case numberOf 0 (take 3 (ds @ ''000'')) of
                None \<Rightarrow> None
              | Some v \<Rightarrow> Some (v, drop (length ds) s))"

definition parseTimePart :: "string \<Rightarrow> (nat \<times> nat \<times> nat \<times> nat \<times> string) option" where
  "parseTimePart s =
     (case digitsPrefix 2 s of
        None \<Rightarrow> None
      | Some (h, r1) \<Rightarrow>
          if r1 \<noteq> [] \<and> hd r1 = CHR '':'' then
            (case digitsPrefix 2 (tl r1) of
               None \<Rightarrow> None
             | Some (mi, r2) \<Rightarrow>
                 if r2 \<noteq> [] \<and> hd r2 = CHR '':'' then
                   (case digitsPrefix 2 (tl r2) of
                      None \<Rightarrow> None
                    | Some (sec, r3) \<Rightarrow>
                        if r3 \<noteq> [] \<and> hd r3 = CHR ''.'' then
                          (case fractionMs (tl r3) of
                             None \<Rightarrow> None
                           | Some (ms, r4) \<Rightarrow> Some (h, mi, sec, ms, r4))
                        else Some (h, mi, sec, 0, r3))
                 else Some (h, mi, 0, 0, r2))
          else None)"

definition parseZone :: "string \<Rightarrow> int option" where
  "parseZone s =
     (if s = [] \<or> s = ''Z'' then Some 0
      else if hd s = CHR ''+'' \<or> hd s = CHR ''-'' then
        (case digitsPrefix 2 (tl s) of
           None \<Rightarrow> None
         | Some (h, r1) \<Rightarrow>
             if r1 \<noteq> [] \<and> hd r1 = CHR '':'' then
               (case digitsPrefix 2 (tl r1) of
                  None \<Rightarrow> None
                | Some (mi, r2) \<Rightarrow>
                    if r2 = [] \<and> h < 24 \<and> mi < 60
                    then Some ((if hd s = CHR ''-'' then - 1 else 1) * (int h * 60 + int mi))
                    else None)
             else None)
      else None)"

text \<open>\<open>TimeClip\<close>: a time value beyond 8.64e15 milliseconds is \<open>NaN\<close>.\<close>

definition TimeClip :: "int \<Rightarrow> int option" where
  "TimeClip t = (if \<bar>t\<bar> > 8640000000000000 then None else Some t)"

definition utcParse :: "string \<Rightarrow> int option" where
  "utcParse s =
     (case parseDatePart s of
        None \<Rightarrow> None
      | Some (y, m, d, r) \<Rightarrow>
          if \<not> (1 \<le> m \<and> m \<le> 12 \<and> 1 \<le> d \<and> d \<le> 31) then None
          else if r = [] then TimeClip (daysFromCivil y (int m) (int d) * msPerDay)
          else if hd r \<noteq> CHR ''T'' then None
          else
            (case parseTimePart (tl r) of
               None \<Rightarrow> None
             | Some (h, mi, sec, ms, r') \<Rightarrow>
                 if \<not> (h < 24 \<and> mi < 60 \<and> sec < 60 \<or> h = 24 \<and> mi = 0 \<and> sec = 0 \<and> ms = 0)
                 then None
                 else
                   (case parseZone r' of
                      None \<Rightarrow> None
                    | Some zone \<Rightarrow>
                        TimeClip (daysFromCivil y (int m) (int d) * msPerDay + int h * 3600000
                                  + int mi * 60000 + int sec * 1000 + int ms - zone * 60000))))"

definition weekdayNames :: "string list" where
  "weekdayNames = [''Sunday'', ''Monday'', ''Tuesday'', ''Wednesday'', ''Thursday'',
     ''Friday'', ''Saturday'']"

definition monthNames :: "string list" where
  "monthNames = [''Jan'', ''Feb'', ''Mar'', ''Apr'', ''May'', ''Jun'', ''Jul'', ''Aug'',
     ''Sep'', ''Oct'', ''Nov'', ''Dec'']"

definition utcMonth :: "int \<Rightarrow> string" where
  "utcMonth t = (case civilFromDays (t div msPerDay) of (y, m, d) \<Rightarrow> monthNames ! nat (m - 1))"

definition utcDay :: "int \<Rightarrow> int" where
  "utcDay t = (case civilFromDays (t div msPerDay) of (y, m, d) \<Rightarrow> d)"

definition twoDigits :: "int \<Rightarrow> string" where
  "twoDigits k = (if k < 10 then CHR ''0'' # decimal (nat k) else decimal (nat k))"

text \<open>
  The text for the options of \<open>formatDate\<close> (long weekday, short month, numeric day, year,
  hour and minute, twelve-hour clock), for years from 1 on: with a short month the date
  and the time are joined by a comma. The space before AM and PM is the plain one (engines
  built on a newer locale data set write a narrow no-break space there).
\<close>

definition utcFormat :: "int \<Rightarrow> string" where
  "utcFormat t =
     (let days = t div msPerDay;
          ms = t mod msPerDay;
          h = ms div 3600000;
          mi = (ms div 60000) mod 60
      in case civilFromDays days of (y, m, d) \<Rightarrow>
           weekdayNames ! nat ((days + 4) mod 7) @ '', '' @ monthNames ! nat (m - 1) @ '' ''
           @ decimal (nat d) @ '', '' @ decimal (nat y) @ '', ''
           @ decimal (nat (if h mod 12 = 0 then 12 else h mod 12)) @ '':'' @ twoDigits mi
           @ (if h < 12 then '' AM'' else '' PM''))"

definition utcEngine :: engine where
  "utcEngine = \<lparr>Date_parse = utcParse, DateTimeFormat_en_US = utcFormat,
     month_short_en_US = utcMonth, local_day_of_month = utcDay\<rparr>"

section \<open>Arrays on a heap\<close>

text \<open>
  The catalog's array is shared: the store holds a reference to it, and \<open>sort\<close> works in
  place. Arrays therefore live on a heap, a map from references to contents with the next
  unused reference; a reference is allocated when it lies below \<open>fresh\<close>.
\<close>

record heap =
  arrays :: "nat \<Rightarrow> event list"
  fresh :: nat

text \<open>The array literal \<open>[...xs]\<close>: a new array with the elements of \<open>xs\<close>.\<close>

definition spread :: "nat \<Rightarrow> heap \<Rightarrow> nat \<times> heap" where
  "spread xs h =
     (fresh h, h\<lparr>arrays := (arrays h)(fresh h := arrays h xs), fresh := Suc (fresh h)\<rparr>)"

text \<open>
  \<open>Array.prototype.sort\<close> with a comparator, as V8 (the engine of Node, on which the tests
  run) sorts an array of fewer than 64 elements. The comparator's result is read through
  \<open>SortCompare\<close>, where \<open>NaN\<close> counts as \<open>0\<close>. \<open>CountAndMakeRun\<close> finds the run at the
  start of the array and reverses it if it descends strictly; \<open>BinaryInsertionSort\<close> puts
  every further element into the sorted part at the place that a binary search finds
  (\<open>searchLeft\<close>; its indices stay inside the sorted part). From 64 elements on V8 cuts the
  array into several runs and merges them; the model does not follow that and keeps
  inserting. For a consistent comparator the result is the same for every length and in
  every engine: the stable sorted array. For an inconsistent one (\<open>NaN\<close> against some
  elements only) the language leaves the order to the implementation. The array is sorted
  in place and its reference returned.
\<close>

definition SortCompare :: "('a \<Rightarrow> 'a \<Rightarrow> int option) \<Rightarrow> 'a \<Rightarrow> 'a \<Rightarrow> int" where
  "SortCompare comparefn x y = (case comparefn x y of None \<Rightarrow> 0 | Some v \<Rightarrow> v)"

fun extendRun :: "('a \<Rightarrow> 'a \<Rightarrow> int option) \<Rightarrow> bool \<Rightarrow> 'a \<Rightarrow> 'a list \<Rightarrow> nat" where
  "extendRun comparefn isDescending previousElement [] = 0"
| "extendRun comparefn isDescending previousElement (currentElement # rest) =
     (let order = SortCompare comparefn currentElement previousElement
      in if (if isDescending then order \<ge> 0 else order < 0) then 0
         else Suc (extendRun comparefn isDescending currentElement rest))"

fun CountAndMakeRun :: "('a \<Rightarrow> 'a \<Rightarrow> int option) \<Rightarrow> 'a list \<Rightarrow> 'a list \<times> 'a list" where
  "CountAndMakeRun comparefn (elementHigh # elementLow # rest) =
     (let order = SortCompare comparefn elementLow elementHigh;
          isDescending = order < 0;
          runLength = 2 + extendRun comparefn isDescending elementLow rest;
          run = take runLength (elementHigh # elementLow # rest)
      in (if isDescending then rev run else run,
          drop runLength (elementHigh # elementLow # rest)))"
| "CountAndMakeRun comparefn workArray = (workArray, [])"

function searchLeft :: "('a \<Rightarrow> 'a \<Rightarrow> int option) \<Rightarrow> 'a \<Rightarrow> 'a list \<Rightarrow> nat \<Rightarrow> nat \<Rightarrow> nat" where
  "searchLeft comparefn pivot workArray left right =
     (if left < right then
        (if SortCompare comparefn pivot (workArray ! (left + (right - left) div 2)) < 0
         then searchLeft comparefn pivot workArray left (left + (right - left) div 2)
         else searchLeft comparefn pivot workArray (left + (right - left) div 2 + 1) right)
      else left)"
  by pat_completeness auto
termination
  by (relation "measure (\<lambda>(comparefn, pivot, workArray, left, right). right - left)") auto

declare searchLeft.simps [simp del]

definition insertPivot :: "('a \<Rightarrow> 'a \<Rightarrow> int option) \<Rightarrow> 'a list \<Rightarrow> 'a \<Rightarrow> 'a list" where
  "insertPivot comparefn sortedPart pivot =
     (let left = searchLeft comparefn pivot sortedPart 0 (length sortedPart)
      in take left sortedPart @ pivot # drop left sortedPart)"

definition BinaryInsertionSort :: "('a \<Rightarrow> 'a \<Rightarrow> int option) \<Rightarrow> 'a list \<Rightarrow> 'a list \<Rightarrow> 'a list" where
  "BinaryInsertionSort comparefn run rest = foldl (insertPivot comparefn) run rest"

definition Array_sort :: "('a \<Rightarrow> 'a \<Rightarrow> int option) \<Rightarrow> 'a list \<Rightarrow> 'a list" where
  "Array_sort comparefn workArray =
     (case CountAndMakeRun comparefn workArray of (run, rest) \<Rightarrow>
        BinaryInsertionSort comparefn run rest)"

definition sort_in_place :: "(event \<Rightarrow> event \<Rightarrow> int option) \<Rightarrow> nat \<Rightarrow> heap \<Rightarrow> nat \<times> heap" where
  "sort_in_place comparefn xs h =
     (xs, h\<lparr>arrays := (arrays h)(xs := Array_sort comparefn (arrays h xs))\<rparr>)"

section \<open>The catalog store (\<open>stores/events.ts\<close>)\<close>

record eventStore =
  events :: nat

text \<open>
  The state is created with an empty array. \<open>eventsData\<close>, the imported data file, is
  not among the sources: \<open>fetchEvents\<close> takes the reference to its array as a parameter.
\<close>

definition initialHeap :: heap where
  "initialHeap = \<lparr>arrays = (\<lambda>r. []), fresh = 1\<rparr>"

definition initialEventStore :: eventStore where
  "initialEventStore = \<lparr>events = 0\<rparr>"

definition fetchEvents :: "nat \<Rightarrow> eventStore \<Rightarrow> eventStore" where
  "fetchEvents eventsData this = this\<lparr>events := eventsData\<rparr>"

text \<open>A heap whose catalog array holds the three fixtures, the latest first.\<close>

definition catalogHeap :: heap where
  "catalogHeap = \<lparr>arrays = (\<lambda>r. [])(0 := [mockEvent3, mockEvent1, mockEvent2]), fresh = 1\<rparr>"

text \<open>
  An event without a time, as in the tests of the list, and a heap whose catalog array
  holds it between the March and the January fixture.
\<close>

definition undefinedTimeEvent :: event where
  "undefinedTimeEvent = \<lparr>name = ''Undefined Time Event'', time = JUndefined,
     location = ''Location'', description = ''Description'', image_url = ''image.jpg'',
     category = Some ''general''\<rparr>"

definition mixedHeap :: heap where
  "mixedHeap =
     \<lparr>arrays = (\<lambda>r. [])(0 := [mockEvent2, undefinedTimeEvent, mockEvent1]), fresh = 1\<rparr>"

section \<open>The event list view (\<open>EventList.vue\<close>)\<close>

definition compareTime :: "engine \<Rightarrow> event \<Rightarrow> event \<Rightarrow> int option" where
  "compareTime E a b = minus_js (getTime (newDate E (time a))) (getTime (newDate E (time b)))"

definition sortedEvents :: "engine \<Rightarrow> eventStore \<Rightarrow> heap \<Rightarrow> nat \<times> heap" where
  "sortedEvents E eventStore h =
     (case spread (events eventStore) h of (copy, h1) \<Rightarrow> sort_in_place (compareTime E) copy h1)"

text \<open>
  The rendered tree: an element with its tag, class and children, a text, or an
  \<open>EventCard\<close> component with its \<open>event\<close> prop.
\<close>

datatype vnode = Element string string "vnode list" | TextNode string | EventCard event

definition EventList :: "engine \<Rightarrow> eventStore \<Rightarrow> heap \<Rightarrow> vnode \<times> heap" where
  "EventList E eventStore h =
     (case sortedEvents E eventStore h of (rendered, h') \<Rightarrow>
        (Element ''div'' ''event-list''
           (Element ''h3'' [] [TextNode ''Events''] # map EventCard (arrays h' rendered)), h'))"

text \<open>What the tests read off the tree: the card components, and the text of the \<open>h3\<close>.\<close>

fun cards :: "vnode \<Rightarrow> event list" where
  "cards (Element t c kids) = concat (map cards kids)"
| "cards (TextNode s) = []"
| "cards (EventCard e) = [e]"

fun textOf :: "vnode \<Rightarrow> string" where
  "textOf (Element t c kids) = concat (map textOf kids)"
| "textOf (TextNode s) = s"
| "textOf (EventCard e) = []"

fun headings :: "vnode \<Rightarrow> string list" where
  "headings (Element t c kids) =
     (if t = ''h3'' then [concat (map textOf kids)] else concat (map headings kids))"
| "headings (TextNode s) = []"
| "headings (EventCard e) = []"

text \<open>Time values in ascending order, both defined.\<close>

definition notAfter :: "engine \<Rightarrow> event \<Rightarrow> event \<Rightarrow> bool" where
  "notAfter E a b =
     (case (newDate E (time a), newDate E (time b)) of
        (Some x, Some y) \<Rightarrow> x \<le> y | _ \<Rightarrow> False)"

definition parseable :: "engine \<Rightarrow> event \<Rightarrow> bool" where
  "parseable E e \<longleftrightarrow> newDate E (time e) \<noteq> None"

text \<open>
  A comparator that orders the elements of a set by a key, and the time value of an event
  as a key.
\<close>

definition keyed :: "('a \<Rightarrow> 'a \<Rightarrow> int option) \<Rightarrow> ('a \<Rightarrow> int) \<Rightarrow> 'a set \<Rightarrow> bool" where
  "keyed c k S \<longleftrightarrow> (\<forall>x \<in> S. \<forall>y \<in> S. (SortCompare c x y < 0) = (k x < k y))"

definition timeKey :: "engine \<Rightarrow> event \<Rightarrow> int" where
  "timeKey E e = (case newDate E (time e) of None \<Rightarrow> 0 | Some t \<Rightarrow> t)"


section \<open>The detail modal and the page's scroll lock (\<open>EventModal.vue\<close>)\<close>

text \<open>
  The page holds the mounted modal instances, each under the key of the card that owns it
  and with the \<open>isOpen\<close> prop the card passes (the card's \<open>isModalOpen\<close>, created
  \<open>false\<close>), and \<open>document.body.style.overflow\<close>. Each mounted instance has its key
  listener installed: \<open>onMounted\<close> adds it and \<open>onUnmounted\<close> removes it.
\<close>

record page =
  modals :: "(nat \<times> bool) list"
  overflow :: string

definition initialPage :: page where
  "initialPage = \<lparr>modals = [], overflow = []\<rparr>"

text \<open>The watcher on \<open>props.isOpen\<close>; it runs when the value of the prop has changed.\<close>

definition watch_isOpen :: "bool \<Rightarrow> page \<Rightarrow> page" where
  "watch_isOpen isOpen pg = (if isOpen then pg\<lparr>overflow := ''hidden''\<rparr> else pg\<lparr>overflow := []\<rparr>)"

definition setIsOpen :: "nat \<Rightarrow> bool \<Rightarrow> page \<Rightarrow> page" where
  "setIsOpen i v pg =
     (case map_of (modals pg) i of
        None \<Rightarrow> pg
      | Some old \<Rightarrow>
          if old = v then pg
          else watch_isOpen v
                 (pg\<lparr>modals := map (\<lambda>(j, b). if j = i then (j, v) else (j, b)) (modals pg)\<rparr>))"

text \<open>\<open>closeModal\<close> emits \<open>close\<close>; the owning card answers by setting its flag to false.\<close>

definition closeModal :: "nat \<Rightarrow> page \<Rightarrow> page" where
  "closeModal i pg = setIsOpen i False pg"

definition handleOverlayClick :: "nat \<Rightarrow> page \<Rightarrow> page" where
  "handleOverlayClick i pg = closeModal i pg"

definition handleEscape :: "string \<Rightarrow> nat \<Rightarrow> page \<Rightarrow> page" where
  "handleEscape key i pg =
     (if key = ''Escape'' \<and> map_of (modals pg) i = Some True then closeModal i pg else pg)"

definition onUnmounted :: "page \<Rightarrow> page" where
  "onUnmounted pg = pg\<lparr>overflow := []\<rparr>"

text \<open>
  What happens on the page: a card is mounted with its closed modal, a card opens its
  modal, the close button or the backdrop of a modal is clicked, a key goes down (every
  installed listener runs), a card is unmounted with its modal.
\<close>

datatype ui_event =
  MountCard nat | OpenModal nat | ClickClose nat | ClickBackdrop nat | KeyDown string
  | UnmountCard nat

fun step :: "ui_event \<Rightarrow> page \<Rightarrow> page" where
  "step (MountCard i) pg =
     (if i \<in> set (map fst (modals pg)) then pg else pg\<lparr>modals := modals pg @ [(i, False)]\<rparr>)"
| "step (OpenModal i) pg = setIsOpen i True pg"
| "step (ClickClose i) pg = closeModal i pg"
| "step (ClickBackdrop i) pg = handleOverlayClick i pg"
| "step (KeyDown key) pg = fold (handleEscape key) (map fst (modals pg)) pg"
| "step (UnmountCard i) pg =
     (if i \<in> set (map fst (modals pg))
      then onUnmounted (pg\<lparr>modals := filter (\<lambda>(j, b). j \<noteq> i) (modals pg)\<rparr>)
      else pg)"

definition anyOpen :: "page \<Rightarrow> bool" where
  "anyOpen pg = some snd (modals pg)"

definition scrollLocked :: "page \<Rightarrow> bool" where
  "scrollLocked pg \<longleftrightarrow> overflow pg = ''hidden''"

text \<open>The lock is on only while some modal is open.\<close>

definition lockSound :: "page \<Rightarrow> bool" where
  "lockSound pg \<longleftrightarrow> (scrollLocked pg \<longrightarrow> anyOpen pg)"

text \<open>
  A run is orderly when a modal is closed by a click, and a card unmounted, only while no
  modal of another card is open. Opening, mounting and keys are always in turn.
\<close>

definition othersClosed :: "nat \<Rightarrow> page \<Rightarrow> bool" where
  "othersClosed i pg = (\<not> some (\<lambda>(j, b). j \<noteq> i \<and> b) (modals pg))"

fun inTurn :: "ui_event \<Rightarrow> page \<Rightarrow> bool" where
  "inTurn (ClickClose i) pg = othersClosed i pg"
| "inTurn (ClickBackdrop i) pg = othersClosed i pg"
| "inTurn (UnmountCard i) pg = othersClosed i pg"
| "inTurn ev pg = True"

fun orderly :: "ui_event list \<Rightarrow> page \<Rightarrow> bool" where
  "orderly [] pg = True"
| "orderly (ev # evs) pg = (inTurn ev pg \<and> orderly evs (step ev pg))"

text \<open>The keys are distinct, and the lock is on exactly when some modal is open.\<close>

definition lockExact :: "page \<Rightarrow> bool" where
  "lockExact pg \<longleftrightarrow> distinct (map fst (modals pg)) \<and> anyOpen pg = scrollLocked pg"

definition closedPage :: page where
  "closedPage = \<lparr>modals = [(0, False)], overflow = []\<rparr>"

definition twoCardPage :: page where
  "twoCardPage = \<lparr>modals = [(0, True), (1, False)], overflow = ''hidden''\<rparr>"

section \<open>Facts about the array methods\<close>

lemma some_iff: "some p xs \<longleftrightarrow> (\<exists>x \<in> set xs. p x)"
  by (induction xs) auto

lemma findIndex_from_found: "findIndex_from p k xs > - 1 \<longleftrightarrow> (\<exists>x \<in> set xs. p x)"
  by (induction xs arbitrary: k) auto

lemma findIndex_found: "findIndex p xs > - 1 \<longleftrightarrow> some p xs"
  by (simp add: findIndex_def findIndex_from_found some_iff)

lemma isPinned_iff: "isPinned n this \<longleftrightarrow> n \<in> set (map name (pinnedEvents this))"
  by (auto simp: isPinned_def some_iff)

section \<open>The pinned-events store: membership\<close>

lemma pinnedEvents_add:
  "pinnedEvents (addPinnedEvent ev this) =
     (if isPinned (name ev) this then pinnedEvents this else pinnedEvents this @ [ev])"
  by (simp add: addPinnedEvent_def isPinned_def push_def)

lemma pinnedEvents_remove:
  "pinnedEvents (removePinnedEvent n this) = filter (\<lambda>e. name e \<noteq> n) (pinnedEvents this)"
  by (simp add: removePinnedEvent_def)

lemma pinnedEvents_toggle:
  "pinnedEvents (togglePin ev this) =
     (if isPinned (name ev) this then filter (\<lambda>e. name e \<noteq> name ev) (pinnedEvents this)
      else pinnedEvents this @ [ev])"
  by (simp add: togglePin_def findIndex_found pinnedEvents_add pinnedEvents_remove
      flip: isPinned_def)

lemma isPinned_toggle:
  "isPinned n (togglePin ev this) = (if name ev = n then \<not> isPinned n this else isPinned n this)"
  by (auto simp: isPinned_iff pinnedEvents_toggle)

lemma isPinned_fold_toggle:
  "isPinned n (fold togglePin evs this) =
     (if odd (count_list (map name evs) n) then \<not> isPinned n this else isPinned n this)"
  by (induction evs arbitrary: this) (auto simp: isPinned_toggle)

lemma uniqueNames_add: "uniqueNames this \<Longrightarrow> uniqueNames (addPinnedEvent ev this)"
  by (auto simp: uniqueNames_def pinnedEvents_add isPinned_iff)

lemma uniqueNames_remove: "uniqueNames this \<Longrightarrow> uniqueNames (removePinnedEvent n this)"
  by (simp add: uniqueNames_def pinnedEvents_remove distinct_map_filter)

lemma uniqueNames_toggle: "uniqueNames this \<Longrightarrow> uniqueNames (togglePin ev this)"
  by (auto simp: uniqueNames_def pinnedEvents_toggle isPinned_iff distinct_map_filter)

lemma uniqueNames_perform: "uniqueNames this \<Longrightarrow> uniqueNames (perform a this)"
  by (cases a) (simp_all add: uniqueNames_add uniqueNames_remove uniqueNames_toggle)

lemma uniqueNames_fold: "uniqueNames this \<Longrightarrow> uniqueNames (fold perform as this)"
  by (induction as arbitrary: this) (simp_all add: uniqueNames_perform)

lemma uniqueNames_initial: "uniqueNames initialPinned"
  by (simp add: uniqueNames_def initialPinned_def)

text \<open>
  C1. Starting from the empty store, after any sequence of \<open>togglePin\<close> calls a name is pinned
  exactly when the sequence toggles it an odd number of times; so the set of names in the store
  is the set of names with an odd toggle count.
\<close>

theorem togglePin_parity:
  "isPinned n (fold togglePin evs initialPinned) = odd (count_list (map name evs) n)
   \<and> set (map name (pinnedEvents (fold togglePin evs initialPinned)))
       = {m. odd (count_list (map name evs) m)}"
proof -
  have none: "\<not> isPinned m initialPinned" for m
    by (simp add: isPinned_def initialPinned_def)
  have mem: "isPinned m (fold togglePin evs initialPinned) = odd (count_list (map name evs) m)"
    for m
    by (simp add: isPinned_fold_toggle none)
  have "set (map name (pinnedEvents (fold togglePin evs initialPinned)))
          = {m. isPinned m (fold togglePin evs initialPinned)}"
    by (auto simp: isPinned_iff)
  with mem show ?thesis by simp
qed

text \<open>
  C2. In every state reached from the empty store by \<open>addPinnedEvent\<close>,
  \<open>removePinnedEvent\<close> and \<open>togglePin\<close> calls, no two entries of the pinned sequence share a
  name; and each of the three actions keeps a store with unique names that way.
\<close>

theorem pinned_names_unique:
  "uniqueNames (fold perform as initialPinned)
   \<and> (uniqueNames this \<longrightarrow>
        uniqueNames (addPinnedEvent ev this) \<and> uniqueNames (removePinnedEvent n this)
        \<and> uniqueNames (togglePin ev this))"
  by (simp add: uniqueNames_fold uniqueNames_initial uniqueNames_add uniqueNames_remove
      uniqueNames_toggle)

lemma uniqueNames_pinnedTwo: "uniqueNames pinnedTwo"
  by (simp add: uniqueNames_def pinnedTwo_def mockEvent1_def mockEvent2_def)

theorem pinned_names_unique_witness:
  "uniqueNames pinnedTwo
   \<and> uniqueNames (fold perform [Toggle mockEvent1, Add mockEvent1, Remove ''Late Event'']
        initialPinned)
   \<and> uniqueNames (addPinnedEvent mockEvent3 pinnedTwo)
   \<and> uniqueNames (removePinnedEvent ''Early Event'' pinnedTwo)
   \<and> uniqueNames (togglePin mockEvent3 pinnedTwo)"
  using pinned_names_unique [of "[Toggle mockEvent1, Add mockEvent1, Remove ''Late Event'']"
      pinnedTwo mockEvent3 "''Early Event''"] uniqueNames_pinnedTwo
  by simp

section \<open>The pinned-events store: adding, removing, payloads\<close>

lemma remove_absent: "\<not> isPinned n this \<Longrightarrow> removePinnedEvent n this = this"
proof -
  assume "\<not> isPinned n this"
  then have "filter (\<lambda>e. name e \<noteq> n) (pinnedEvents this) = pinnedEvents this"
    by (auto simp: isPinned_iff filter_id_conv)
  then show ?thesis by (simp add: removePinnedEvent_def)
qed

text \<open>
  C6. After \<open>addPinnedEvent e\<close> the name of \<open>e\<close> is pinned; after a following
  \<open>removePinnedEvent\<close> of that name it is not; and \<open>removePinnedEvent\<close> of a name that is
  not pinned returns the store as it was, so a second removal changes nothing. (The actions
  are total: there is no path on which they throw.)
\<close>

theorem add_remove_isPinned:
  "isPinned (name e) (addPinnedEvent e this)
   \<and> \<not> isPinned (name e) (removePinnedEvent (name e) (addPinnedEvent e this))
   \<and> (\<not> isPinned n this \<longrightarrow> removePinnedEvent n this = this)
   \<and> removePinnedEvent n (removePinnedEvent n this) = removePinnedEvent n this"
proof -
  have "isPinned (name e) (addPinnedEvent e this)"
    by (auto simp: isPinned_iff pinnedEvents_add)
  moreover have gone: "\<not> isPinned m (removePinnedEvent m that)" for m that
    by (auto simp: isPinned_iff pinnedEvents_remove)
  moreover have "removePinnedEvent n (removePinnedEvent n this) = removePinnedEvent n this"
    by (rule remove_absent) (rule gone)
  ultimately show ?thesis
    by (simp add: remove_absent)
qed

theorem add_remove_isPinned_witness:
  "\<not> isPinned ''Late Event'' pinnedTwo
   \<and> removePinnedEvent ''Late Event'' pinnedTwo = pinnedTwo
   \<and> isPinned ''Late Event'' (addPinnedEvent mockEvent3 pinnedTwo)
   \<and> \<not> isPinned ''Late Event''
         (removePinnedEvent ''Late Event'' (addPinnedEvent mockEvent3 pinnedTwo))"
proof -
  have absent: "\<not> isPinned ''Late Event'' pinnedTwo"
    by (simp add: isPinned_def pinnedTwo_def mockEvent1_def mockEvent2_def)
  have nm: "name mockEvent3 = ''Late Event''"
    by (simp add: mockEvent3_def)
  from add_remove_isPinned [of mockEvent3 pinnedTwo "''Late Event''"] absent nm
  show ?thesis by simp
qed

text \<open>
  C8. The store passes payloads through. Adding or toggling a name that is not pinned
  appends the very event passed. Toggling a pinned name out and then in again with the event \<open>e'\<close> of the same
  name leaves, for that name, exactly the entry \<open>e'\<close>, at the end of the sequence: the
  earlier payload is gone, and nothing of it is merged into the new one.
\<close>

theorem toggle_payload_passthrough:
  "(\<not> isPinned (name e) this \<longrightarrow>
        pinnedEvents (addPinnedEvent e this) = pinnedEvents this @ [e]
        \<and> pinnedEvents (togglePin e this) = pinnedEvents this @ [e])
   \<and> (isPinned (name e) this \<and> name e' = name e \<longrightarrow>
        pinnedEvents (togglePin e' (togglePin e this))
          = filter (\<lambda>x. name x \<noteq> name e) (pinnedEvents this) @ [e']
        \<and> filter (\<lambda>x. name x = name e) (pinnedEvents (togglePin e' (togglePin e this))) = [e'])"
proof -
  have out: "\<not> isPinned (name e) (togglePin e this)" if "isPinned (name e) this"
    using that by (simp add: isPinned_toggle)
  have "pinnedEvents (togglePin e' (togglePin e this))
          = filter (\<lambda>x. name x \<noteq> name e) (pinnedEvents this) @ [e']"
    if "isPinned (name e) this" "name e' = name e"
    using that out by (simp add: pinnedEvents_toggle)
  then show ?thesis
    by (auto simp: pinnedEvents_toggle pinnedEvents_add)
qed

theorem toggle_payload_passthrough_witness:
  "\<not> isPinned (name mockEvent3) pinnedTwo
   \<and> pinnedEvents (togglePin mockEvent3 pinnedTwo) = [mockEvent1, mockEvent2, mockEvent3]
   \<and> isPinned (name mockEvent1) pinnedTwo \<and> name movedEvent1 = name mockEvent1
   \<and> movedEvent1 \<noteq> mockEvent1
   \<and> pinnedEvents (togglePin movedEvent1 (togglePin mockEvent1 pinnedTwo))
        = [mockEvent2, movedEvent1]"
proof -
  have absent: "\<not> isPinned (name mockEvent3) pinnedTwo"
    by (simp add: isPinned_def pinnedTwo_def mockEvent1_def mockEvent2_def mockEvent3_def)
  have present: "isPinned (name mockEvent1) pinnedTwo"
    by (simp add: isPinned_def pinnedTwo_def)
  have same: "name movedEvent1 = name mockEvent1"
    by (simp add: movedEvent1_def)
  have other: "movedEvent1 \<noteq> mockEvent1"
    by (simp add: movedEvent1_def mockEvent1_def)
  have rest: "filter (\<lambda>x. name x \<noteq> name mockEvent1) (pinnedEvents pinnedTwo) = [mockEvent2]"
    by (simp add: pinnedTwo_def mockEvent1_def mockEvent2_def)
  have all: "pinnedEvents pinnedTwo = [mockEvent1, mockEvent2]"
    by (simp add: pinnedTwo_def)
  from toggle_payload_passthrough [of mockEvent3 pinnedTwo]
    toggle_payload_passthrough [of mockEvent1 pinnedTwo movedEvent1]
    absent present same other rest all
  show ?thesis by simp
qed

text \<open>
  C10. \<open>removePinnedEvent n\<close> leaves no entry named \<open>n\<close>, however many there were; every
  entry with another name stays, as often as before and in the same relative order; and
  what is left is a subsequence of the sequence before.
\<close>

theorem removePinnedEvent_all:
  "n \<notin> set (map name (pinnedEvents (removePinnedEvent n this)))
   \<and> count_list (map name (pinnedEvents (removePinnedEvent n this))) n = 0
   \<and> filter (\<lambda>e. name e \<noteq> n) (pinnedEvents (removePinnedEvent n this))
       = filter (\<lambda>e. name e \<noteq> n) (pinnedEvents this)
   \<and> subseq (pinnedEvents (removePinnedEvent n this)) (pinnedEvents this)"
proof -
  have "n \<notin> set (map name (pinnedEvents (removePinnedEvent n this)))"
    by (auto simp: pinnedEvents_remove)
  then show ?thesis
    by (simp add: pinnedEvents_remove count_list_0_iff)
qed

section \<open>The catalog store\<close>

text \<open>
  C9. \<open>fetchEvents\<close> replaces whatever the store held by the data set: afterwards the store
  refers to the data set's array and so holds its sequence, whatever it held before; and a
  second call gives the same store as the first alone (nothing is appended).
\<close>

theorem fetchEvents_replaces:
  "events (fetchEvents eventsData this) = eventsData
   \<and> arrays h (events (fetchEvents eventsData this)) = arrays h eventsData
   \<and> fetchEvents eventsData (fetchEvents eventsData this) = fetchEvents eventsData this"
  by (simp add: fetchEvents_def)

section \<open>The event list view: a sorted copy\<close>

lemma mset_insertPivot: "mset (insertPivot c a p) = add_mset p (mset a)"
proof -
  have "mset (take n a @ p # drop n a) = add_mset p (mset a)" for n
    using append_take_drop_id [of n a] by (metis mset_append mset.simps(2) union_mset_add_mset_right)
  then show ?thesis by (simp add: insertPivot_def Let_def)
qed

lemma mset_BinaryInsertionSort: "mset (BinaryInsertionSort c run rest) = mset run + mset rest"
  unfolding BinaryInsertionSort_def
  by (induction rest arbitrary: run) (simp_all add: mset_insertPivot)

lemma mset_CountAndMakeRun:
  "CountAndMakeRun c xs = (run, rest) \<Longrightarrow> mset run + mset rest = mset xs"
proof (induction c xs rule: CountAndMakeRun.induct)
  case (1 c h l r)
  have "mset (take n ys) + mset (drop n ys) = mset ys" for n and ys :: "'a list"
    by (metis append_take_drop_id mset_append)
  with 1 show ?case
    by (auto simp: Let_def split: if_splits)
qed simp_all

lemma mset_Array_sort: "mset (Array_sort c xs) = mset xs"
  by (cases "CountAndMakeRun c xs")
    (simp add: Array_sort_def mset_BinaryInsertionSort mset_CountAndMakeRun)


lemma searchLeft_inv:
  assumes "keyed c k S" and "set a \<subseteq> S" and "p \<in> S" and "sorted (map k a)"
  shows "left \<le> right \<Longrightarrow> right \<le> length a \<Longrightarrow> (\<forall>i<left. k (a ! i) \<le> k p) \<Longrightarrow>
    (\<forall>i. right \<le> i \<and> i < length a \<longrightarrow> k p < k (a ! i)) \<Longrightarrow>
    searchLeft c p a left right \<le> length a
    \<and> (\<forall>i<searchLeft c p a left right. k (a ! i) \<le> k p)
    \<and> (\<forall>i. searchLeft c p a left right \<le> i \<and> i < length a \<longrightarrow> k p < k (a ! i))"
  using assms
proof (induction c p a left right rule: searchLeft.induct)
  case (1 c p a left right)
  let ?mid = "left + (right - left) div 2"
  show ?case
  proof (cases "left < right")
    case False
    then have "searchLeft c p a left right = left"
      by (subst searchLeft.simps) simp
    with False "1.prems" show ?thesis by auto
  next
    case True
    then have mid: "left \<le> ?mid" "?mid < right" "?mid < length a"
      using "1.prems"(2) by auto
    then have midS: "a ! ?mid \<in> S"
      using "1.prems"(6) by (meson nth_mem subsetD)
    have mono: "k (a ! i) \<le> k (a ! j)" if "i \<le> j" "j < length a" for i j
      using sorted_nth_mono [OF "1.prems"(8), of i j] that by simp
    show ?thesis
    proof (cases "SortCompare c p (a ! ?mid) < 0")
      case less: True
      then have lt: "k p < k (a ! ?mid)"
        using "1.prems"(5,7) midS by (simp add: keyed_def)
      have above: "\<forall>i. ?mid \<le> i \<and> i < length a \<longrightarrow> k p < k (a ! i)"
        using lt mono by (meson less_le_trans)
      have "searchLeft c p a left ?mid \<le> length a
        \<and> (\<forall>i<searchLeft c p a left ?mid. k (a ! i) \<le> k p)
        \<and> (\<forall>i. searchLeft c p a left ?mid \<le> i \<and> i < length a \<longrightarrow> k p < k (a ! i))"
        using "1.IH"(1) [OF True less] mid "1.prems" above by simp
      with True less show ?thesis
        by (simp add: searchLeft.simps [of c p a left right])
    next
      case geq: False
      then have le: "k (a ! ?mid) \<le> k p"
        using "1.prems"(5,7) midS by (simp add: keyed_def)
      have below: "\<forall>i<?mid + 1. k (a ! i) \<le> k p"
        using le mono mid(3) by (metis Suc_eq_plus1 less_Suc_eq_le order_trans)
      have "searchLeft c p a (?mid + 1) right \<le> length a
        \<and> (\<forall>i<searchLeft c p a (?mid + 1) right. k (a ! i) \<le> k p)
        \<and> (\<forall>i. searchLeft c p a (?mid + 1) right \<le> i \<and> i < length a \<longrightarrow> k p < k (a ! i))"
        using "1.IH"(2) [OF True geq] mid "1.prems" below by simp
      with True geq show ?thesis
        by (simp add: searchLeft.simps [of c p a left right])
    qed
  qed
qed

lemma set_insertPivot: "set (insertPivot c a p) = insert p (set a)"
  using mset_insertPivot [of c a p, THEN arg_cong, of set_mset] by simp

lemma sorted_insertPivot:
  assumes "keyed c k S" and "set a \<subseteq> S" and "p \<in> S" and "sorted (map k a)"
  shows "sorted (map k (insertPivot c a p))"
proof -
  let ?r = "searchLeft c p a 0 (length a)"
  from searchLeft_inv [OF assms, of 0 "length a"]
  have r: "?r \<le> length a" and lo: "\<forall>i<?r. k (a ! i) \<le> k p"
    and hi: "\<forall>i. ?r \<le> i \<and> i < length a \<longrightarrow> k p < k (a ! i)"
    by simp_all
  have before: "k x \<le> k p" if "x \<in> set (take ?r a)" for x
  proof -
    from that obtain i where "i < length (take ?r a)" "x = take ?r a ! i"
      by (auto simp: in_set_conv_nth)
    with lo show ?thesis by simp
  qed
  have after: "k p < k y" if "y \<in> set (drop ?r a)" for y
  proof -
    from that obtain i where "i < length (drop ?r a)" "y = drop ?r a ! i"
      by (auto simp: in_set_conv_nth)
    with hi r show ?thesis by simp
  qed
  have "sorted (map k (take ?r a))" "sorted (map k (drop ?r a))"
    using assms(4) by (simp_all add: take_map [symmetric] drop_map [symmetric] sorted_wrt_take sorted_wrt_drop)
  then have "sorted (map k (take ?r a) @ k p # map k (drop ?r a))"
    using before after by (fastforce simp: sorted_append)
  then show ?thesis by (simp add: insertPivot_def Let_def)
qed

lemma sorted_BinaryInsertionSort:
  assumes "keyed c k S"
  shows "set run \<subseteq> S \<Longrightarrow> set rest \<subseteq> S \<Longrightarrow> sorted (map k run) \<Longrightarrow>
    sorted (map k (BinaryInsertionSort c run rest))"
  unfolding BinaryInsertionSort_def
proof (induction rest arbitrary: run)
  case Nil
  then show ?case by simp
next
  case (Cons p rest)
  have "sorted (map k (insertPivot c run p))"
    using assms Cons.prems by (intro sorted_insertPivot [where S = S]) simp_all
  moreover have "set (insertPivot c run p) \<subseteq> S"
    using Cons.prems by (simp add: set_insertPivot)
  ultimately show ?case
    using Cons.IH [of "insertPivot c run p"] Cons.prems by simp
qed

lemma ascending_run:
  assumes "keyed c k S"
  shows "prev \<in> S \<Longrightarrow> set xs \<subseteq> S \<Longrightarrow>
    sorted_wrt (\<lambda>x y. k x \<le> k y) (prev # take (extendRun c False prev xs) xs)"
proof (induction xs arbitrary: prev)
  case Nil
  then show ?case by simp
next
  case (Cons x xs)
  show ?case
  proof (cases "SortCompare c x prev < 0")
    case True
    then show ?thesis by simp
  next
    case False
    then have "k prev \<le> k x"
      using assms Cons.prems by (simp add: keyed_def)
    moreover have "sorted_wrt (\<lambda>x y. k x \<le> k y) (x # take (extendRun c False x xs) xs)"
      using Cons.IH [of x] Cons.prems by simp
    ultimately show ?thesis
      using False by (auto simp: Let_def)
  qed
qed

lemma descending_run:
  assumes "keyed c k S"
  shows "prev \<in> S \<Longrightarrow> set xs \<subseteq> S \<Longrightarrow>
    sorted_wrt (\<lambda>x y. k y \<le> k x) (prev # take (extendRun c True prev xs) xs)"
proof (induction xs arbitrary: prev)
  case Nil
  then show ?case by simp
next
  case (Cons x xs)
  show ?case
  proof (cases "SortCompare c x prev < 0")
    case False
    then show ?thesis by simp
  next
    case True
    then have "k x \<le> k prev"
      using assms Cons.prems by (simp add: keyed_def)
    moreover have "sorted_wrt (\<lambda>x y. k y \<le> k x) (x # take (extendRun c True x xs) xs)"
      using Cons.IH [of x] Cons.prems by simp
    ultimately show ?thesis
      using True by (auto simp: Let_def)
  qed
qed

lemma sorted_CountAndMakeRun:
  assumes "keyed c k S" and "set xs \<subseteq> S" and "CountAndMakeRun c xs = (run, rest)"
  shows "sorted (map k run)"
proof (cases xs)
  case Nil
  with assms(3) show ?thesis by simp
next
  case (Cons h t)
  show ?thesis
  proof (cases t)
    case Nil
    with Cons assms(3) show ?thesis by auto
  next
    case (Cons l r)
    with \<open>xs = h # t\<close> have xs: "xs = h # l # r" by simp
    with assms(2) have mem: "h \<in> S" "l \<in> S" "set r \<subseteq> S" by simp_all
    show ?thesis
    proof (cases "SortCompare c l h < 0")
      case True
      then have "k l \<le> k h"
        using assms(1) mem by (simp add: keyed_def)
      moreover have "sorted_wrt (\<lambda>x y. k y \<le> k x) (l # take (extendRun c True l r) r)"
        using descending_run [OF assms(1) mem(2,3)] .
      ultimately have "sorted_wrt (\<lambda>x y. k y \<le> k x) (h # l # take (extendRun c True l r) r)"
        by auto
      then have "sorted (map k (rev (h # l # take (extendRun c True l r) r)))"
        by (simp only: sorted_wrt_map sorted_wrt_rev)
      with True assms(3) xs show ?thesis by (auto simp: Let_def)
    next
      case False
      then have "k h \<le> k l"
        using assms(1) mem by (simp add: keyed_def)
      moreover have "sorted_wrt (\<lambda>x y. k x \<le> k y) (l # take (extendRun c False l r) r)"
        using ascending_run [OF assms(1) mem(2,3)] .
      ultimately have "sorted_wrt (\<lambda>x y. k x \<le> k y) (h # l # take (extendRun c False l r) r)"
        by auto
      then have "sorted (map k (h # l # take (extendRun c False l r) r))"
        by (simp only: sorted_wrt_map)
      with False assms(3) xs show ?thesis by (auto simp: Let_def)
    qed
  qed
qed

lemma sorted_Array_sort:
  assumes "keyed c k S" and "set xs \<subseteq> S"
  shows "sorted (map k (Array_sort c xs))"
proof -
  obtain run rest where cr: "CountAndMakeRun c xs = (run, rest)"
    by (cases "CountAndMakeRun c xs")
  then have "mset run + mset rest = mset xs" by (rule mset_CountAndMakeRun)
  then have "set run \<union> set rest = set xs"
    by (metis set_mset_mset set_mset_union)
  with assms(2) have "set run \<subseteq> S" "set rest \<subseteq> S" by auto
  moreover have "sorted (map k run)"
    using assms cr by (rule sorted_CountAndMakeRun)
  ultimately show ?thesis
    using assms(1) cr by (simp add: Array_sort_def sorted_BinaryInsertionSort)
qed

lemma keyed_compareTime: "keyed (compareTime E) (timeKey E) {e. parseable E e}"
  by (auto simp: keyed_def SortCompare_def compareTime_def minus_js_def getTime_def
      timeKey_def parseable_def)

lemma sorted_by_time:
  assumes "\<forall>e \<in> set xs. parseable E e"
  shows "sorted_wrt (notAfter E) (Array_sort (compareTime E) xs)"
proof -
  have "sorted (map (timeKey E) (Array_sort (compareTime E) xs))"
    using keyed_compareTime assms by (intro sorted_Array_sort [where S = "{e. parseable E e}"]) auto
  then have byKey:
    "sorted_wrt (\<lambda>a b. timeKey E a \<le> timeKey E b) (Array_sort (compareTime E) xs)"
    by (simp only: sorted_wrt_map)
  have valid: "\<forall>e \<in> set (Array_sort (compareTime E) xs). parseable E e"
    using assms mset_Array_sort [of "compareTime E" xs, THEN arg_cong, of set_mset] by simp
  show ?thesis
  proof (rule sorted_wrt_mono_rel [OF _ byKey])
    fix a b
    assume mem: "a \<in> set (Array_sort (compareTime E) xs)"
      "b \<in> set (Array_sort (compareTime E) xs)"
      and le: "timeKey E a \<le> timeKey E b"
    from valid mem have "parseable E a" "parseable E b"
      by blast+
    then obtain x y where "newDate E (time a) = Some x" "newDate E (time b) = Some y"
      by (auto simp: parseable_def)
    with le show "notAfter E a b"
      by (simp add: notAfter_def timeKey_def)
  qed
qed

lemma sortedEvents_eq:
  "sortedEvents E eventStore h =
     (fresh h, \<lparr>arrays = (arrays h)(fresh h := Array_sort (compareTime E) (arrays h (events eventStore))),
                fresh = Suc (fresh h)\<rparr>)"
  by (simp add: sortedEvents_def spread_def sort_in_place_def)

lemma cards_of_EventCards: "concat (map (cards \<circ> EventCard) xs) = xs"
  by (induction xs) auto

lemma EventList_cards:
  "sortedEvents E eventStore h = (r, h') \<Longrightarrow> cards (fst (EventList E eventStore h)) = arrays h' r"
  by (simp add: EventList_def cards_of_EventCards)

text \<open>
  C3. The event list renders a sorted copy and leaves the catalog alone. When the store's
  array is allocated, computing \<open>sortedEvents\<close> returns a reference \<open>r\<close> to a new array, no
  array that existed before is changed, the store's array in particular; the cards of the
  rendered list are the elements of the new array, which are those of the catalog; and when
  the time of every event of the catalog parses to a date, they stand in ascending order of
  time.
\<close>

theorem sortedEvents_copy_sorted:
  assumes "events eventStore < fresh h" and "sortedEvents E eventStore h = (r, h')"
  shows "arrays h' (events eventStore) = arrays h (events eventStore)
    \<and> r \<noteq> events eventStore
    \<and> (\<forall>a. a < fresh h \<longrightarrow> arrays h' a = arrays h a)
    \<and> cards (fst (EventList E eventStore h)) = arrays h' r
    \<and> mset (arrays h' r) = mset (arrays h (events eventStore))
    \<and> (list_all (parseable E) (arrays h (events eventStore))
         \<longrightarrow> sorted_wrt (notAfter E) (arrays h' r))"
proof -
  from assms(2) have r: "r = fresh h"
    and h': "arrays h' = (arrays h)(fresh h := Array_sort (compareTime E) (arrays h (events eventStore)))"
    by (auto simp: sortedEvents_eq)
  from assms(1) r h' have "\<forall>a. a < fresh h \<longrightarrow> arrays h' a = arrays h a"
    by simp
  moreover have "cards (fst (EventList E eventStore h)) = arrays h' r"
    using assms(2) by (rule EventList_cards)
  ultimately show ?thesis
    using assms(1) r h' by (simp add: mset_Array_sort sorted_by_time list_all_iff)
qed

lemma time_mockEvent1: "newDate utcEngine (time mockEvent1) = Some 1736935200000"
  by code_simp

lemma time_mockEvent2: "newDate utcEngine (time mockEvent2) = Some 1742479200000"
  by code_simp

lemma time_mockEvent3: "newDate utcEngine (time mockEvent3) = Some 1751306400000"
  by code_simp

lemma Array_sort_catalog:
  "Array_sort (compareTime utcEngine) [mockEvent3, mockEvent1, mockEvent2]
     = [mockEvent1, mockEvent2, mockEvent3]"
  by code_simp

theorem sortedEvents_copy_sorted_witness:
  "events initialEventStore < fresh catalogHeap
   \<and> list_all (parseable utcEngine) (arrays catalogHeap (events initialEventStore))
   \<and> arrays catalogHeap (events initialEventStore) = [mockEvent3, mockEvent1, mockEvent2]
   \<and> arrays (snd (sortedEvents utcEngine initialEventStore catalogHeap)) (events initialEventStore)
        = [mockEvent3, mockEvent1, mockEvent2]
   \<and> arrays (snd (sortedEvents utcEngine initialEventStore catalogHeap))
        (fst (sortedEvents utcEngine initialEventStore catalogHeap))
        = [mockEvent1, mockEvent2, mockEvent3]
   \<and> cards (fst (EventList utcEngine initialEventStore catalogHeap))
        = [mockEvent1, mockEvent2, mockEvent3]
   \<and> sorted_wrt (notAfter utcEngine) [mockEvent1, mockEvent2, mockEvent3]"
proof -
  have alloc: "events initialEventStore < fresh catalogHeap"
    by (simp add: initialEventStore_def catalogHeap_def)
  have store: "arrays catalogHeap (events initialEventStore) = [mockEvent3, mockEvent1, mockEvent2]"
    by (simp add: initialEventStore_def catalogHeap_def)
  have ok: "list_all (parseable utcEngine) (arrays catalogHeap (events initialEventStore))"
    by (simp add: store parseable_def time_mockEvent1 time_mockEvent2 time_mockEvent3)
  have out: "arrays (snd (sortedEvents utcEngine initialEventStore catalogHeap))
        (fst (sortedEvents utcEngine initialEventStore catalogHeap))
        = [mockEvent1, mockEvent2, mockEvent3]"
    by (simp add: sortedEvents_eq store Array_sort_catalog)
  from sortedEvents_copy_sorted [OF alloc surjective_pairing, of utcEngine] ok store out alloc
  show ?thesis by simp
qed

text \<open>
  With an event whose time does not parse, the events whose times do parse need not be in
  order. The comparator gives \<open>NaN\<close> whenever it meets the event without a time, \<open>sort\<close>
  reads that as equal, and March and January, never compared with each other, stay as they
  were: March is rendered before January.
\<close>

theorem unparseable_time_breaks_order:
  "parseable utcEngine mockEvent2 \<and> parseable utcEngine mockEvent1
   \<and> \<not> parseable utcEngine undefinedTimeEvent
   \<and> arrays mixedHeap (events initialEventStore)
        = [mockEvent2, undefinedTimeEvent, mockEvent1]
   \<and> cards (fst (EventList utcEngine initialEventStore mixedHeap))
        = [mockEvent2, undefinedTimeEvent, mockEvent1]
   \<and> filter (parseable utcEngine) (cards (fst (EventList utcEngine initialEventStore mixedHeap)))
        = [mockEvent2, mockEvent1]
   \<and> \<not> sorted_wrt (notAfter utcEngine)
         (filter (parseable utcEngine)
            (cards (fst (EventList utcEngine initialEventStore mixedHeap))))"
proof -
  have valid: "parseable utcEngine mockEvent2" "parseable utcEngine mockEvent1"
    by (simp_all add: parseable_def time_mockEvent1 time_mockEvent2)
  have invalid: "\<not> parseable utcEngine undefinedTimeEvent"
    by (simp add: parseable_def newDate_def undefinedTimeEvent_def)
  have store: "arrays mixedHeap (events initialEventStore)
      = [mockEvent2, undefinedTimeEvent, mockEvent1]"
    by (simp add: mixedHeap_def initialEventStore_def)
  have kept: "Array_sort (compareTime utcEngine) [mockEvent2, undefinedTimeEvent, mockEvent1]
      = [mockEvent2, undefinedTimeEvent, mockEvent1]"
    by code_simp
  have rendered: "cards (fst (EventList utcEngine initialEventStore mixedHeap))
      = [mockEvent2, undefinedTimeEvent, mockEvent1]"
    by (simp add: EventList_def sortedEvents_eq store kept cards_of_EventCards)
  have later: "\<not> notAfter utcEngine mockEvent2 mockEvent1"
    by (simp add: notAfter_def time_mockEvent1 time_mockEvent2)
  from valid invalid store rendered later show ?thesis by simp
qed

section \<open>The event list view: the empty catalog\<close>

text \<open>
  C7. With no events in the catalog the event list renders its container and no card; its
  heading is the fixed text \<open>Events\<close>, the same as for a catalog with events, and not the
  text \<open>No events are available\<close> that the tests of the view expect.
\<close>

theorem EventList_empty_catalog:
  "arrays h (events eventStore) = [] \<Longrightarrow>
     fst (EventList E eventStore h)
       = Element ''div'' ''event-list'' [Element ''h3'' [] [TextNode ''Events'']]
     \<and> cards (fst (EventList E eventStore h)) = []
     \<and> headings (fst (EventList E eventStore h)) = [''Events'']
     \<and> ''No events are available'' \<notin> set (headings (fst (EventList E eventStore h)))"
  by (simp add: EventList_def sortedEvents_eq Array_sort_def BinaryInsertionSort_def)

theorem EventList_empty_catalog_witness:
  "arrays initialHeap (events initialEventStore) = []
   \<and> fst (EventList utcEngine initialEventStore initialHeap)
       = Element ''div'' ''event-list'' [Element ''h3'' [] [TextNode ''Events'']]
   \<and> headings (fst (EventList utcEngine initialEventStore initialHeap)) = [''Events'']"
proof -
  have empty: "arrays initialHeap (events initialEventStore) = []"
    by (simp add: initialHeap_def)
  from EventList_empty_catalog [OF empty, of utcEngine] empty show ?thesis by simp
qed

section \<open>The date formatters\<close>

lemma upper_invalid: "toUpperCase ''Invalid Date'' = ''INVALID DATE''"
  by code_simp

lemma formatCalendarDate_invalid:
  "newDate E v = None \<Longrightarrow> formatCalendarDate E v = invalidCalendarDate"
  by (simp add: formatCalendarDate_def toLocaleString_month_def getDate_def toString_def
      upper_invalid invalidCalendarDate_def)

lemma formatCalendarDate_valid:
  "newDate E v = Some t \<Longrightarrow>
     formatCalendarDate E v
       = \<lparr>month = toUpperCase (month_short_en_US E t),
          day = toString (Some (local_day_of_month E t))\<rparr>"
  by (simp add: formatCalendarDate_def toLocaleString_month_def getDate_def)

lemma formatDate_cases:
  "formatDate E v = (case newDate E v of None \<Rightarrow> Inl RangeError
                     | Some t \<Rightarrow> Inr (DateTimeFormat_en_US E t))"
  by (simp add: formatDate_def DateTimeFormat_format_def)

text \<open>
  C5. Neither formatter should throw, and each should return its string or pair of strings.
  \<open>formatCalendarDate\<close> does: no step of it can throw, and on an invalid date the pair is
  \<open>INVALID DATE\<close> and \<open>NaN\<close>. \<open>formatDate\<close> does so for \<open>null\<close> (the epoch) and for
  every string that parses to a date; for \<open>undefined\<close> and for every string that does not
  parse, the empty string among them, it returns no string: \<open>format\<close> throws a RangeError,
  which \<open>formatDate\<close> does not catch.
\<close>

theorem formatters_results:
  "formatDate E JNull = Inr (DateTimeFormat_en_US E 0)
   \<and> formatDate E JUndefined = Inl RangeError
   \<and> formatCalendarDate E JUndefined = invalidCalendarDate
   \<and> formatCalendarDate E JNull
       = \<lparr>month = toUpperCase (month_short_en_US E 0),
          day = toString (Some (local_day_of_month E 0))\<rparr>
   \<and> (Date_parse E s = None \<longrightarrow>
        formatDate E (JStr s) = Inl RangeError
        \<and> formatCalendarDate E (JStr s) = invalidCalendarDate)
   \<and> (Date_parse E s = Some t \<longrightarrow>
        formatDate E (JStr s) = Inr (DateTimeFormat_en_US E t)
        \<and> formatCalendarDate E (JStr s)
            = \<lparr>month = toUpperCase (month_short_en_US E t),
               day = toString (Some (local_day_of_month E t))\<rparr>)"
  by (simp add: formatDate_cases formatCalendarDate_invalid formatCalendarDate_valid newDate_def)

lemma parse_empty: "Date_parse utcEngine [] = None"
  by code_simp

lemma parse_garbage: "Date_parse utcEngine ''not-a-date'' = None"
  by code_simp

lemma parse_iso: "Date_parse utcEngine ''2025-03-15T10:00:00'' = Some 1742032800000"
  by code_simp

lemma format_iso:
  "DateTimeFormat_en_US utcEngine 1742032800000 = ''Saturday, Mar 15, 2025, 10:00 AM''"
  by code_simp

lemma calendar_iso:
  "\<lparr>month = toUpperCase (month_short_en_US utcEngine 1742032800000),
          day = toString (Some (local_day_of_month utcEngine 1742032800000))\<rparr>
   = \<lparr>month = ''MAR'', day = ''15''\<rparr>"
  by code_simp

theorem formatters_results_witness:
  "Date_parse utcEngine [] = None
   \<and> formatDate utcEngine (JStr []) = Inl RangeError
   \<and> formatCalendarDate utcEngine (JStr []) = \<lparr>month = ''INVALID DATE'', day = ''NaN''\<rparr>
   \<and> Date_parse utcEngine ''2025-03-15T10:00:00'' = Some 1742032800000
   \<and> formatDate utcEngine (JStr ''2025-03-15T10:00:00'')
        = Inr ''Saturday, Mar 15, 2025, 10:00 AM''
   \<and> formatCalendarDate utcEngine (JStr ''2025-03-15T10:00:00'')
        = \<lparr>month = ''MAR'', day = ''15''\<rparr>"
  using formatters_results [of utcEngine "[]"]
    formatters_results [of utcEngine "''2025-03-15T10:00:00''" 1742032800000]
    parse_empty parse_iso format_iso calendar_iso
  by (simp add: invalidCalendarDate_def)

text \<open>
  On the reference engine, \<open>formatDate\<close> throws for \<open>undefined\<close>, for the empty string
  and for \<open>not-a-date\<close>, where \<open>formatCalendarDate\<close> returns its pair.
\<close>

theorem formatDate_throws:
  "formatDate utcEngine JUndefined = Inl RangeError
   \<and> formatDate utcEngine (JStr []) = Inl RangeError
   \<and> formatDate utcEngine (JStr ''not-a-date'') = Inl RangeError
   \<and> formatCalendarDate utcEngine (JStr ''not-a-date'') = invalidCalendarDate"
  by (simp add: formatDate_cases formatCalendarDate_invalid newDate_def parse_empty
      parse_garbage)

section \<open>The detail modal: the scroll lock\<close>

lemma anyOpen_iff: "anyOpen pg \<longleftrightarrow> (\<exists>i. (i, True) \<in> set (modals pg))"
  by (force simp: anyOpen_def some_iff)

lemma map_of_retarget:
  "j \<noteq> i \<Longrightarrow> map_of (map (\<lambda>(k, b). if k = j then (k, v) else (k, b)) xs) i = map_of xs i"
  by (induction xs) auto

lemma retarget_mem:
  "(i, b) \<in> set xs \<Longrightarrow> (i, v) \<in> set (map (\<lambda>(k, b). if k = i then (k, v) else (k, b)) xs)"
  by (induction xs) auto

lemma setIsOpen_other:
  "j \<noteq> i \<Longrightarrow> map_of (modals (setIsOpen j v pg)) i = map_of (modals pg) i"
  by (simp add: setIsOpen_def watch_isOpen_def map_of_retarget split: option.splits)

lemma setIsOpen_opens:
  "map_of (modals pg) i = Some False \<Longrightarrow> overflow (setIsOpen i True pg) = ''hidden''"
  by (simp add: setIsOpen_def watch_isOpen_def)

lemma setIsOpen_closes:
  "map_of (modals pg) i = Some True \<Longrightarrow> overflow (setIsOpen i False pg) = []"
  by (simp add: setIsOpen_def watch_isOpen_def)

lemma lockSound_setIsOpen: "lockSound pg \<Longrightarrow> lockSound (setIsOpen i v pg)"
proof (cases "map_of (modals pg) i")
  case None
  then show "lockSound pg \<Longrightarrow> ?thesis" by (simp add: setIsOpen_def)
next
  case (Some old)
  show "lockSound pg \<Longrightarrow> ?thesis"
  proof (cases "old = v")
    case True
    with Some show "lockSound pg \<Longrightarrow> ?thesis" by (simp add: setIsOpen_def)
  next
    case False
    from Some have "(i, old) \<in> set (modals pg)" by (rule map_of_SomeD)
    then have mem: "(i, v) \<in> set (map (\<lambda>(k, b). if k = i then (k, v) else (k, b)) (modals pg))"
      by (rule retarget_mem)
    have m: "modals (setIsOpen i v pg)
               = map (\<lambda>(k, b). if k = i then (k, v) else (k, b)) (modals pg)"
      using Some False by (simp add: setIsOpen_def watch_isOpen_def)
    have "(i, True) \<in> set (modals (setIsOpen i v pg))" if v
      using mem that unfolding m by simp
    then have "v \<Longrightarrow> anyOpen (setIsOpen i v pg)"
      unfolding anyOpen_iff by blast
    moreover have "\<not> v \<Longrightarrow> \<not> scrollLocked (setIsOpen i v pg)"
      using Some False by (simp add: setIsOpen_def watch_isOpen_def scrollLocked_def)
    ultimately show ?thesis unfolding lockSound_def by (cases v) blast+
  qed
qed

lemma lockSound_handleEscape: "lockSound pg \<Longrightarrow> lockSound (handleEscape key i pg)"
  by (simp add: handleEscape_def closeModal_def lockSound_setIsOpen)

lemma lockSound_keys: "lockSound pg \<Longrightarrow> lockSound (fold (handleEscape key) ids pg)"
  by (induction ids arbitrary: pg) (simp_all add: lockSound_handleEscape)

lemma lockSound_step: "lockSound pg \<Longrightarrow> lockSound (step ev pg)"
proof (cases ev)
  case (MountCard i)
  then show "lockSound pg \<Longrightarrow> ?thesis"
    by (auto simp: lockSound_def scrollLocked_def anyOpen_iff)
next
  case (UnmountCard i)
  then show "lockSound pg \<Longrightarrow> ?thesis"
    by (simp add: lockSound_def scrollLocked_def onUnmounted_def)
qed (simp_all add: lockSound_setIsOpen lockSound_keys closeModal_def handleOverlayClick_def)

lemma lockSound_run: "lockSound pg \<Longrightarrow> lockSound (fold step evs pg)"
  by (induction evs arbitrary: pg) (simp_all add: lockSound_step)

lemma lockSound_initial: "lockSound initialPage"
  by (simp add: lockSound_def scrollLocked_def initialPage_def)

lemma overflow_handleEscape:
  "overflow (handleEscape key j pg) = overflow pg \<or> overflow (handleEscape key j pg) = []"
  by (simp add: handleEscape_def closeModal_def setIsOpen_def watch_isOpen_def)

lemma overflow_keys:
  "overflow pg = [] \<Longrightarrow> overflow (fold (handleEscape key) ids pg) = []"
proof (induction ids arbitrary: pg)
  case Nil
  then show ?case by simp
next
  case (Cons j ids)
  from overflow_handleEscape [of key j pg] Cons.prems
  have "overflow (handleEscape key j pg) = []" by auto
  then show ?case by (simp add: Cons.IH)
qed

lemma escape_releases:
  "map_of (modals pg) i = Some True \<Longrightarrow> i \<in> set ids \<Longrightarrow>
     overflow (fold (handleEscape ''Escape'') ids pg) = []"
proof (induction ids arbitrary: pg)
  case Nil
  then show ?case by simp
next
  case (Cons j ids)
  show ?case
  proof (cases "j = i")
    case True
    with Cons.prems have "overflow (handleEscape ''Escape'' j pg) = []"
      by (simp add: handleEscape_def closeModal_def setIsOpen_closes)
    then show ?thesis by (simp add: overflow_keys)
  next
    case False
    then have "map_of (modals (handleEscape ''Escape'' j pg)) i = Some True"
      using Cons.prems(1) by (simp add: handleEscape_def closeModal_def setIsOpen_other)
    moreover from False Cons.prems(2) have "i \<in> set ids" by simp
    ultimately show ?thesis by (simp add: Cons.IH)
  qed
qed

lemma othersClosed_iff:
  "othersClosed i pg \<longleftrightarrow> (\<forall>k. (k, True) \<in> set (modals pg) \<longrightarrow> k = i)"
  by (force simp: othersClosed_def some_iff)

lemma keys_retarget: "map fst (map (\<lambda>(k, b). if k = i then (k, v) else (k, b)) xs) = map fst xs"
  by (induction xs) auto

lemma keys_setIsOpen: "map fst (modals (setIsOpen i v pg)) = map fst (modals pg)"
  by (auto simp: setIsOpen_def watch_isOpen_def split: option.splits prod.splits)

lemma keys_handleEscape: "map fst (modals (handleEscape key i pg)) = map fst (modals pg)"
  by (simp add: handleEscape_def closeModal_def keys_setIsOpen)

lemma keys_fold_handleEscape:
  "map fst (modals (fold (handleEscape key) ids pg)) = map fst (modals pg)"
  by (induction ids arbitrary: pg) (simp_all add: keys_handleEscape)

lemma open_after_retarget_False:
  "(k, True) \<in> set (map (\<lambda>(j, b). if j = i then (j, False) else (j, b)) xs) \<Longrightarrow>
     k \<noteq> i \<and> (k, True) \<in> set xs"
  by (induction xs) (auto split: if_splits)

lemma open_after_close:
  "(k, True) \<in> set (modals (setIsOpen i False pg)) \<Longrightarrow> (k, True) \<in> set (modals pg)"
  by (auto simp: setIsOpen_def watch_isOpen_def split: option.splits if_splits
      dest: open_after_retarget_False)

lemma closed_after_close:
  assumes "map_of (modals pg) i = Some True"
  shows "(i, True) \<notin> set (modals (setIsOpen i False pg))"
proof
  have m: "modals (setIsOpen i False pg)
      = map (\<lambda>(j, b). if j = i then (j, False) else (j, b)) (modals pg)"
    using assms by (simp add: setIsOpen_def watch_isOpen_def)
  assume "(i, True) \<in> set (modals (setIsOpen i False pg))"
  then have "(i, True) \<in> set (map (\<lambda>(j, b). if j = i then (j, False) else (j, b)) (modals pg))"
    unfolding m .
  from open_after_retarget_False [OF this] show False by simp
qed

lemma open_after_handleEscape:
  "(k, True) \<in> set (modals (handleEscape key i pg)) \<Longrightarrow> (k, True) \<in> set (modals pg)"
  by (auto simp: handleEscape_def closeModal_def dest: open_after_close split: if_splits)

lemma open_after_keys:
  "(k, True) \<in> set (modals (fold (handleEscape key) ids pg)) \<Longrightarrow> (k, True) \<in> set (modals pg)"
  by (induction ids arbitrary: pg) (auto dest: open_after_handleEscape)

lemma closed_after_handleEscape:
  assumes "distinct (map fst (modals pg))"
  shows "(i, True) \<notin> set (modals (handleEscape ''Escape'' i pg))"
proof (cases "map_of (modals pg) i = Some True")
  case True
  then show ?thesis
    by (simp add: handleEscape_def closeModal_def closed_after_close)
next
  case False
  with assms have "(i, True) \<notin> set (modals pg)" by simp
  with False show ?thesis by (simp add: handleEscape_def)
qed

lemma closed_after_keys:
  "distinct (map fst (modals pg)) \<Longrightarrow> i \<in> set ids \<Longrightarrow>
     (i, True) \<notin> set (modals (fold (handleEscape ''Escape'') ids pg))"
proof (induction ids arbitrary: pg)
  case Nil
  then show ?case by simp
next
  case (Cons j ids)
  show ?case
  proof (cases "j = i")
    case True
    with Cons.prems(1) have "(i, True) \<notin> set (modals (handleEscape ''Escape'' j pg))"
      by (simp add: closed_after_handleEscape)
    then show ?thesis by (auto dest: open_after_keys)
  next
    case False
    with Cons.prems(2) have "i \<in> set ids" by simp
    moreover have "distinct (map fst (modals (handleEscape ''Escape'' j pg)))"
      using Cons.prems(1) by (simp add: keys_handleEscape)
    ultimately show ?thesis by (simp add: Cons.IH)
  qed
qed

lemma other_key_idle: "key \<noteq> ''Escape'' \<Longrightarrow> fold (handleEscape key) ids pg = pg"
  by (induction ids) (simp_all add: handleEscape_def)

lemma unlocked_keys:
  "\<not> scrollLocked pg \<Longrightarrow> \<not> scrollLocked (fold (handleEscape key) ids pg)"
proof (induction ids arbitrary: pg)
  case Nil
  then show ?case by simp
next
  case (Cons j ids)
  from overflow_handleEscape [of key j pg] Cons.prems
  have "\<not> scrollLocked (handleEscape key j pg)"
    by (auto simp: scrollLocked_def)
  then show ?case by (simp add: Cons.IH)
qed

lemma lockExact_setIsOpen_True: "lockExact pg \<Longrightarrow> lockExact (setIsOpen i True pg)"
proof -
  assume inv: "lockExact pg"
  show ?thesis
  proof (cases "map_of (modals pg) i = Some False")
    case True
    then have "(i, False) \<in> set (modals pg)" by (rule map_of_SomeD)
    then have mem:
      "(i, True) \<in> set (map (\<lambda>(k, b). if k = i then (k, True) else (k, b)) (modals pg))"
      by (rule retarget_mem)
    have m: "modals (setIsOpen i True pg)
        = map (\<lambda>(k, b). if k = i then (k, True) else (k, b)) (modals pg)"
      and o: "overflow (setIsOpen i True pg) = ''hidden''"
      using True by (simp_all add: setIsOpen_def watch_isOpen_def)
    from mem have "(i, True) \<in> set (modals (setIsOpen i True pg))"
      unfolding m .
    then have "anyOpen (setIsOpen i True pg)"
      unfolding anyOpen_iff by blast
    moreover have "scrollLocked (setIsOpen i True pg)"
      by (simp add: scrollLocked_def o)
    ultimately have "anyOpen (setIsOpen i True pg)" "scrollLocked (setIsOpen i True pg)"
      by simp_all
    with inv show ?thesis
      by (simp add: lockExact_def keys_setIsOpen)
  next
    case False
    then have "setIsOpen i True pg = pg"
      by (auto simp: setIsOpen_def split: option.splits)
    with inv show ?thesis by simp
  qed
qed

lemma lockExact_close:
  assumes "lockExact pg" and "othersClosed i pg"
  shows "lockExact (setIsOpen i False pg)"
proof (cases "map_of (modals pg) i = Some True")
  case True
  have "k = i" if "(k, True) \<in> set (modals (setIsOpen i False pg))" for k
    using that assms(2) by (auto simp: othersClosed_iff dest: open_after_close)
  with closed_after_close [OF True] have "\<not> anyOpen (setIsOpen i False pg)"
    by (auto simp: anyOpen_iff)
  moreover have "\<not> scrollLocked (setIsOpen i False pg)"
    using True by (simp add: scrollLocked_def setIsOpen_closes)
  ultimately show ?thesis
    using assms(1) by (simp add: lockExact_def keys_setIsOpen)
next
  case False
  then have "setIsOpen i False pg = pg"
    by (auto simp: setIsOpen_def split: option.splits)
  with assms(1) show ?thesis by simp
qed

lemma lockExact_keys:
  assumes "lockExact pg"
  shows "lockExact (fold (handleEscape key) (map fst (modals pg)) pg)"
proof (cases "key = ''Escape''")
  case False
  with assms show ?thesis by (simp add: other_key_idle)
next
  case True
  let ?pg' = "fold (handleEscape ''Escape'') (map fst (modals pg)) pg"
  from assms have dist: "distinct (map fst (modals pg))"
    by (simp add: lockExact_def)
  have "(k, True) \<notin> set (modals ?pg')" for k
  proof
    assume opened: "(k, True) \<in> set (modals ?pg')"
    then have "(k, True) \<in> set (modals pg)" by (rule open_after_keys)
    then have "k \<in> set (map fst (modals pg))" by force
    with dist opened closed_after_keys show False by blast
  qed
  then have closed: "\<not> anyOpen ?pg'" by (simp add: anyOpen_iff)
  have "\<not> scrollLocked ?pg'"
  proof (cases "anyOpen pg")
    case True
    then obtain i where "(i, True) \<in> set (modals pg)" by (auto simp: anyOpen_iff)
    with dist have "map_of (modals pg) i = Some True" "i \<in> set (map fst (modals pg))"
      by (simp, force)
    then have "overflow ?pg' = []" by (rule escape_releases)
    then show ?thesis by (simp add: scrollLocked_def)
  next
    case False
    with assms have "\<not> scrollLocked pg" by (simp add: lockExact_def)
    then show ?thesis by (rule unlocked_keys)
  qed
  with closed dist True show ?thesis
    by (simp add: lockExact_def keys_fold_handleEscape)
qed

lemma lockExact_step: "lockExact pg \<Longrightarrow> inTurn ev pg \<Longrightarrow> lockExact (step ev pg)"
proof (cases ev)
  case (MountCard i)
  then show "lockExact pg \<Longrightarrow> ?thesis"
    by (auto simp: lockExact_def anyOpen_iff scrollLocked_def)
next
  case (UnmountCard i)
  assume inv: "lockExact pg" and turn: "inTurn ev pg"
  show ?thesis
  proof (cases "i \<in> set (map fst (modals pg))")
    case False
    with UnmountCard inv show ?thesis by simp
  next
    case True
    have "\<not> anyOpen (onUnmounted (pg\<lparr>modals := filter (\<lambda>(j, b). j \<noteq> i) (modals pg)\<rparr>))"
      using turn UnmountCard by (auto simp: anyOpen_iff onUnmounted_def othersClosed_iff)
    moreover have "distinct (map fst (filter (\<lambda>(j, b). j \<noteq> i) (modals pg)))"
      using inv by (simp add: lockExact_def distinct_map_filter)
    ultimately show ?thesis
      using True UnmountCard
      by (simp add: lockExact_def scrollLocked_def onUnmounted_def)
  qed
qed (simp_all add: lockExact_setIsOpen_True lockExact_close lockExact_keys closeModal_def
    handleOverlayClick_def)

lemma lockExact_run: "lockExact pg \<Longrightarrow> orderly evs pg \<Longrightarrow> lockExact (fold step evs pg)"
  by (induction evs arbitrary: pg) (simp_all add: lockExact_step)

lemma lockExact_initial: "lockExact initialPage"
  by (simp add: lockExact_def initialPage_def anyOpen_def scrollLocked_def)

text \<open>
  C4. Opening a closed modal sets the scroll lock; closing an open modal by the close
  button, the backdrop or the Escape key releases it; unmounting a mounted modal, open or
  closed, releases it. On every page reached from the empty one the lock is on only while
  some modal is open. And on every page reached by an orderly run, in which a modal is
  closed by a click and a card unmounted only while no modal of another card is open, the
  lock is on exactly while some modal is open.
\<close>

theorem scroll_lock_follows_modal:
  "(map_of (modals pg) i = Some False \<longrightarrow> scrollLocked (step (OpenModal i) pg))
   \<and> (map_of (modals pg) i = Some True \<longrightarrow>
        \<not> scrollLocked (step (ClickClose i) pg) \<and> \<not> scrollLocked (step (ClickBackdrop i) pg)
        \<and> \<not> scrollLocked (step (KeyDown ''Escape'') pg))
   \<and> (i \<in> set (map fst (modals pg)) \<longrightarrow> \<not> scrollLocked (step (UnmountCard i) pg))
   \<and> (scrollLocked (fold step evs initialPage) \<longrightarrow> anyOpen (fold step evs initialPage))
   \<and> (orderly evs initialPage \<longrightarrow>
        anyOpen (fold step evs initialPage) = scrollLocked (fold step evs initialPage))"
proof -
  have opens: "scrollLocked (step (OpenModal i) pg)" if "map_of (modals pg) i = Some False"
    using that by (simp add: scrollLocked_def setIsOpen_opens)
  have closes: "\<not> scrollLocked (step (ClickClose i) pg) \<and> \<not> scrollLocked (step (ClickBackdrop i) pg)
        \<and> \<not> scrollLocked (step (KeyDown ''Escape'') pg)" if o: "map_of (modals pg) i = Some True"
  proof -
    from o have "(i, True) \<in> set (modals pg)" by (rule map_of_SomeD)
    then have mem: "i \<in> set (map fst (modals pg))" by force
    from o mem show ?thesis
      by (simp add: scrollLocked_def closeModal_def handleOverlayClick_def setIsOpen_closes
          escape_releases)
  qed
  have unmounts: "\<not> scrollLocked (step (UnmountCard i) pg)" if "i \<in> set (map fst (modals pg))"
    using that by (simp add: scrollLocked_def onUnmounted_def)
  have sound: "scrollLocked (fold step evs initialPage) \<longrightarrow> anyOpen (fold step evs initialPage)"
    using lockSound_run [OF lockSound_initial, of evs] by (simp add: lockSound_def)
  have "anyOpen (fold step evs initialPage) = scrollLocked (fold step evs initialPage)"
    if "orderly evs initialPage"
    using lockExact_run [OF lockExact_initial that] by (simp add: lockExact_def)
  with opens closes unmounts sound show ?thesis by blast
qed

theorem scroll_lock_follows_modal_witness:
  "map_of (modals closedPage) 0 = Some False
   \<and> scrollLocked (step (OpenModal 0) closedPage)
   \<and> map_of (modals twoCardPage) 0 = Some True
   \<and> \<not> scrollLocked (step (ClickClose 0) twoCardPage)
   \<and> \<not> scrollLocked (step (ClickBackdrop 0) twoCardPage)
   \<and> \<not> scrollLocked (step (KeyDown ''Escape'') twoCardPage)
   \<and> 1 \<in> set (map fst (modals twoCardPage))
   \<and> \<not> scrollLocked (step (UnmountCard 1) twoCardPage)
   \<and> orderly [MountCard 0, MountCard 1, OpenModal 0, KeyDown ''Escape'', OpenModal 1] initialPage
   \<and> scrollLocked
        (fold step [MountCard 0, MountCard 1, OpenModal 0, KeyDown ''Escape'', OpenModal 1]
           initialPage)
   \<and> anyOpen
        (fold step [MountCard 0, MountCard 1, OpenModal 0, KeyDown ''Escape'', OpenModal 1]
           initialPage)"
proof -
  have closed: "map_of (modals closedPage) 0 = Some False"
    by (simp add: closedPage_def)
  have opened: "map_of (modals twoCardPage) 0 = Some True"
    by (simp add: twoCardPage_def)
  have mounted: "1 \<in> set (map fst (modals twoCardPage))"
    by (simp add: twoCardPage_def)
  have turn:
    "orderly [MountCard 0, MountCard 1, OpenModal 0, KeyDown ''Escape'', OpenModal 1] initialPage"
    by simp
  have locked:
    "scrollLocked
       (fold step [MountCard 0, MountCard 1, OpenModal 0, KeyDown ''Escape'', OpenModal 1]
          initialPage)"
    by (simp add: initialPage_def setIsOpen_def watch_isOpen_def closeModal_def
        handleEscape_def scrollLocked_def)
  from scroll_lock_follows_modal [of closedPage 0
      "[MountCard 0, MountCard 1, OpenModal 0, KeyDown ''Escape'', OpenModal 1]"]
    scroll_lock_follows_modal [of twoCardPage 0 "[]"]
    scroll_lock_follows_modal [of twoCardPage 1 "[]"] closed opened mounted turn locked
  show ?thesis by simp
qed

text \<open>
  With two cards the lock does not follow the open modal. The modal of a card in the list
  is open; the event is pinned from it, which mounts a pinned card with a modal of its own,
  and unpinned again, which unmounts that card. The unmounted modal, never open, resets the
  lock: the first modal is still open and the page scrolls.
\<close>

theorem scroll_lock_lost_with_two_modals:
  "anyOpen (fold step [MountCard 0, OpenModal 0, MountCard 1, UnmountCard 1] initialPage)
   \<and> \<not> scrollLocked
         (fold step [MountCard 0, OpenModal 0, MountCard 1, UnmountCard 1] initialPage)
   \<and> \<not> orderly [MountCard 0, OpenModal 0, MountCard 1, UnmountCard 1] initialPage"
  by (simp add: initialPage_def setIsOpen_def watch_isOpen_def closeModal_def onUnmounted_def
      anyOpen_def scrollLocked_def othersClosed_def)

end
